theory Spec2Isabelle
  imports Complex_Main "HOL-Library.Multiset"
begin

section \<open>Arrays\<close>

text \<open>
  A numpy array is a shape together with its elements in row-major (C) order.
  Every array the functions below receive satisfies \<open>wf_array\<close>: it has as many
  elements as its shape says.
\<close>

record 'a ndarray =
  shape :: "nat list"
  data :: "'a list"

definition wf_array :: "'a ndarray \<Rightarrow> bool" where
  "wf_array a = (length (data a) = prod_list (shape a))"

definition ndim :: "'a ndarray \<Rightarrow> nat" where
  "ndim a = length (shape a)"

text \<open>\<open>bw > 0\<close>, \<open>~bw\<close>, \<open>np.logical_or\<close> and the conversion of a label array to
  booleans (numpy reads a non-zero integer as True).\<close>

definition gt0 :: "int ndarray \<Rightarrow> bool ndarray" where
  "gt0 a = \<lparr>shape = shape a, data = map (\<lambda>v. 0 < v) (data a)\<rparr>"

definition invert :: "bool ndarray \<Rightarrow> bool ndarray" where
  "invert a = \<lparr>shape = shape a, data = map Not (data a)\<rparr>"

definition astype_bool :: "nat ndarray \<Rightarrow> bool ndarray" where
  "astype_bool a = \<lparr>shape = shape a, data = map (\<lambda>v. v \<noteq> 0) (data a)\<rparr>"

definition logical_or :: "bool ndarray \<Rightarrow> bool ndarray \<Rightarrow> bool ndarray" where
  "logical_or a b = \<lparr>shape = shape a, data = map2 (\<or>) (data a) (data b)\<rparr>"

text \<open>\<open>np.bincount(x)\<close>: for a non-empty \<open>x\<close> of non-negative integers, the number of
  occurrences of each value from 0 to \<open>max x\<close>; the empty array for an empty \<open>x\<close>.\<close>

definition bincount :: "nat list \<Rightarrow> nat list" where
  "bincount xs = (if xs = [] then [] else map (count_list xs) [0..<Suc (Max (set xs))])"

text \<open>\<open>t[lab]\<close>: a one-dimensional table indexed by an integer array, elementwise.\<close>

definition take_along :: "'a list \<Rightarrow> nat ndarray \<Rightarrow> 'a ndarray" where
  "take_along t lab = \<lparr>shape = shape lab, data = map (\<lambda>l. t ! l) (data lab)\<rparr>"

text \<open>\<open>a[mask] = v\<close> for a boolean mask of the shape of \<open>a\<close>.\<close>

definition mask_assign :: "'a ndarray \<Rightarrow> bool ndarray \<Rightarrow> 'a \<Rightarrow> 'a ndarray" where
  "mask_assign a m v = \<lparr>shape = shape a, data = map2 (\<lambda>x b. if b then v else x) (data a) (data m)\<rparr>"

text \<open>\<open>a[zz,:,:]\<close> read and written: slice \<open>zz\<close> along the first axis.\<close>

definition slice_len :: "'a ndarray \<Rightarrow> nat" where
  "slice_len a = prod_list (tl (shape a))"

definition get_slice :: "'a ndarray \<Rightarrow> nat \<Rightarrow> 'a ndarray" where
  "get_slice a zz = \<lparr>shape = tl (shape a),
     data = take (slice_len a) (drop (zz * slice_len a) (data a))\<rparr>"

definition set_slice :: "'a ndarray \<Rightarrow> nat \<Rightarrow> 'a list \<Rightarrow> 'a ndarray" where
  "set_slice a zz xs = \<lparr>shape = shape a,
     data = take (zz * slice_len a) (data a) @ xs @ drop (zz * slice_len a + slice_len a) (data a)\<rparr>"

definition zeros_like :: "'a ndarray \<Rightarrow> bool ndarray" where
  "zeros_like a = \<lparr>shape = shape a, data = replicate (length (data a)) False\<rparr>"

text \<open>The Python exceptions that the functions below can raise.\<close>

datatype py_error = IndexError | ValueError | ZeroDivisionError

section \<open>Connected components\<close>

text \<open>
  \<open>skimage.measure.label\<close> is a library function and is a parameter of the model.
  Its contract for \<open>connectivity=1\<close> is \<open>is_labelling\<close>: the label array has the shape of
  the mask, is 0 exactly off the mask, and two voxels of the mask carry the same label
  exactly when a path of mask voxels joins them, each step changing one coordinate by one.
\<close>

fun unravel :: "nat list \<Rightarrow> nat \<Rightarrow> nat list" where
  "unravel [] i = []"
| "unravel (d # ds) i = (i div prod_list ds) # unravel ds (i mod prod_list ds)"

definition adjacent1 :: "nat list \<Rightarrow> nat \<Rightarrow> nat \<Rightarrow> bool" where
  "adjacent1 sh i j =
     (sum_list (map2 (\<lambda>a b. if a \<le> b then b - a else a - b) (unravel sh i) (unravel sh j)) = 1)"

definition mask_step :: "bool ndarray \<Rightarrow> nat \<Rightarrow> nat \<Rightarrow> bool" where
  "mask_step a i j = (i < length (data a) \<and> j < length (data a) \<and> data a ! i \<and> data a ! j
     \<and> adjacent1 (shape a) i j)"

definition connected :: "bool ndarray \<Rightarrow> nat \<Rightarrow> nat \<Rightarrow> bool" where
  "connected a = (mask_step a)\<^sup>*\<^sup>*"

definition component_size :: "bool ndarray \<Rightarrow> nat \<Rightarrow> nat" where
  "component_size a i = length (filter (connected a i) [0..<length (data a)])"

definition is_labelling :: "bool ndarray \<Rightarrow> nat ndarray \<Rightarrow> bool" where
  "is_labelling a L = (shape L = shape a \<and> length (data L) = length (data a) \<and>
     (\<forall>i < length (data a). (data L ! i = 0) = (\<not> data a ! i)) \<and>
     (\<forall>i < length (data a). \<forall>j < length (data a). data a ! i \<longrightarrow> data a ! j \<longrightarrow>
        (data L ! i = data L ! j) = connected a i j))"

text \<open>What every \<open>label\<close> gives: an array of the shape of its argument.\<close>

definition shape_preserving :: "(bool ndarray \<Rightarrow> nat ndarray) \<Rightarrow> bool" where
  "shape_preserving label = (\<forall>a. shape (label a) = shape a \<and> length (data (label a)) = length (data a))"

text \<open>A labelling for masks with at most one component: every mask voxel gets label 1.\<close>

definition label_all_one :: "bool ndarray \<Rightarrow> nat ndarray" where
  "label_all_one a = \<lparr>shape = shape a, data = map (\<lambda>b. if b then 1 else 0) (data a)\<rparr>"

section \<open>hole\_filling\<close>

text \<open>
  The block the source writes three times (for a 2D input, for each slice, and for a
  whole 3D input): label the inverted mask, count each label, and clear the labels
  whose count is above \<open>hole_max\<close> or below \<open>hole_min\<close>.
\<close>

definition fill_labels :: "(bool ndarray \<Rightarrow> nat ndarray) \<Rightarrow> bool ndarray \<Rightarrow> int \<Rightarrow> int \<Rightarrow> nat ndarray" where
  "fill_labels label bw hole_min hole_max =
     (let background_lab = label (invert bw);
          fill_out = background_lab;
          component_sizes = bincount (data background_lab);
          too_big = map (\<lambda>c. hole_max < int c) component_sizes;
          too_big_mask = take_along too_big background_lab;
          fill_out = mask_assign fill_out too_big_mask 0;
          too_small = map (\<lambda>c. int c < hole_min) component_sizes;
          too_small_mask = take_along too_small background_lab;
          fill_out = mask_assign fill_out too_small_mask 0
      in fill_out)"

text \<open>The loop over the slices of a 3D input: \<open>fill_out[zz,:,:] = out\<close>, where the
  boolean \<open>fill_out\<close> stores a label as True when it is not 0.\<close>

definition fill_slices :: "(bool ndarray \<Rightarrow> nat ndarray) \<Rightarrow> bool ndarray \<Rightarrow> int \<Rightarrow> int \<Rightarrow> bool ndarray" where
  "fill_slices label bw hole_min hole_max =
     foldl (\<lambda>fill_out zz.
              set_slice fill_out zz
                (data (astype_bool (fill_labels label (get_slice bw zz) hole_min hole_max))))
           (zeros_like bw) [0..<hd (shape bw)]"

text \<open>
  The result is what the call prints and what it returns: for an input that is neither
  2D nor 3D the source prints \<open>error\<close> and returns \<open>None\<close>.
\<close>

definition hole_filling ::
  "(bool ndarray \<Rightarrow> nat ndarray) \<Rightarrow> int ndarray \<Rightarrow> int \<Rightarrow> int \<Rightarrow> bool \<Rightarrow> string list \<times> bool ndarray option" where
  "hole_filling label bw0 hole_min hole_max fill_2d =
     (let bw = gt0 bw0 in
      if length (shape bw) = 2 then
        ([], Some (logical_or bw (astype_bool (fill_labels label bw hole_min hole_max))))
      else if length (shape bw) = 3 then
        (if fill_2d then
           ([], Some (logical_or bw (fill_slices label bw hole_min hole_max)))
         else
           ([], Some (logical_or bw (astype_bool (fill_labels label bw hole_min hole_max)))))
      else ([''error''], None))"

text \<open>
  What the caller of \<open>hole_filling\<close> observes. The source has no \<open>raise\<close>, and
  \<open>bw > 0\<close> and \<open>len(bw.shape)\<close> are defined on an array of any number of dimensions, so
  the call returns; the value it returns is the second component above.
\<close>

datatype 'a outcome = Raises py_error | Returns 'a

definition hole_filling_call ::
  "(bool ndarray \<Rightarrow> nat ndarray) \<Rightarrow> int ndarray \<Rightarrow> int \<Rightarrow> int \<Rightarrow> bool \<Rightarrow> bool ndarray option outcome" where
  "hole_filling_call label bw0 hole_min hole_max fill_2d =
     Returns (snd (hole_filling label bw0 hole_min hole_max fill_2d))"

text \<open>One pass of the block over a mask: the mask together with the labels that are kept.\<close>

definition fill_once :: "(bool ndarray \<Rightarrow> nat ndarray) \<Rightarrow> bool ndarray \<Rightarrow> int \<Rightarrow> int \<Rightarrow> bool ndarray" where
  "fill_once label bw hole_min hole_max = logical_or bw (astype_bool (fill_labels label bw hole_min hole_max))"

text \<open>A boolean array read as numbers, as \<open>bw > 0\<close> reads it: True is 1, False is 0.\<close>

definition as_int :: "bool ndarray \<Rightarrow> int ndarray" where
  "as_int a = \<lparr>shape = shape a, data = map (\<lambda>b. if b then 1 else 0) (data a)\<rparr>"

text \<open>The masks that one call of \<open>hole_filling\<close> passes to \<open>label\<close>, and the
  condition that \<open>label\<close> meets its contract on each of them.\<close>

definition label_calls :: "bool ndarray \<Rightarrow> bool \<Rightarrow> bool ndarray list" where
  "label_calls bw fill_2d =
     (if length (shape bw) = 3 \<and> fill_2d
      then map (\<lambda>zz. invert (get_slice bw zz)) [0..<hd (shape bw)]
      else [invert bw])"

definition labels_ok :: "(bool ndarray \<Rightarrow> nat ndarray) \<Rightarrow> bool ndarray \<Rightarrow> bool \<Rightarrow> bool" where
  "labels_ok label bw fill_2d = (\<forall>a \<in> set (label_calls bw fill_2d). is_labelling a (label a))"

section \<open>topology\_preserving\_thinning\<close>

text \<open>
  \<open>medial_axis\<close>, \<open>distance_transform_edt\<close> and \<open>erosion(_, ball(thin))\<close> are library
  functions and are parameters of the model. Distances are real numbers. The source
  indexes \<open>bw[zz,:,:]\<close> and erodes with a 3D ball, so it runs on 3D inputs only; the
  properties below are stated for them.
\<close>

definition np_any :: "bool ndarray \<Rightarrow> bool" where
  "np_any a = (\<exists>b \<in> set (data a). b)"

definition greater_than :: "real ndarray \<Rightarrow> real \<Rightarrow> bool ndarray" where
  "greater_than a t = \<lparr>shape = shape a, data = map (\<lambda>v. t < v) (data a)\<rparr>"

definition logical_xor :: "bool ndarray \<Rightarrow> bool ndarray \<Rightarrow> bool ndarray" where
  "logical_xor a b = \<lparr>shape = shape a, data = map2 (\<noteq>) (data a) (data b)\<rparr>"

definition logical_and :: "bool ndarray \<Rightarrow> bool ndarray \<Rightarrow> bool ndarray" where
  "logical_and a b = \<lparr>shape = shape a, data = map2 (\<and>) (data a) (data b)\<rparr>"

text \<open>The loop that builds \<open>safe_zone\<close>; \<open>ctl == 0\<close> is \<open>invert ctl\<close>, and on the
  boolean \<open>bw\<close> the source's second \<open>> 0\<close> changes nothing.\<close>

definition safe_zone_of ::
  "(bool ndarray \<Rightarrow> bool ndarray) \<Rightarrow> (bool ndarray \<Rightarrow> real ndarray) \<Rightarrow> bool ndarray \<Rightarrow> real \<Rightarrow> bool ndarray" where
  "safe_zone_of medial_axis distance_transform_edt bw min_thickness =
     foldl (\<lambda>safe_zone zz.
              if np_any (get_slice bw zz) then
                (let ctl = medial_axis (get_slice bw zz);
                     dist = distance_transform_edt (invert ctl)
                 in set_slice safe_zone zz (data (greater_than dist (min_thickness + 1 / 100000))))
              else safe_zone)
           (zeros_like bw) [0..<hd (shape bw)]"

definition rm_candidate_of :: "(bool ndarray \<Rightarrow> nat \<Rightarrow> bool ndarray) \<Rightarrow> bool ndarray \<Rightarrow> nat \<Rightarrow> bool ndarray" where
  "rm_candidate_of erosion_ball bw thin = logical_xor bw (erosion_ball bw thin)"

definition topology_preserving_thinning ::
  "(bool ndarray \<Rightarrow> bool ndarray) \<Rightarrow> (bool ndarray \<Rightarrow> real ndarray) \<Rightarrow> (bool ndarray \<Rightarrow> nat \<Rightarrow> bool ndarray)
     \<Rightarrow> int ndarray \<Rightarrow> real \<Rightarrow> nat \<Rightarrow> bool ndarray" where
  "topology_preserving_thinning medial_axis distance_transform_edt erosion_ball bw0 min_thickness thin =
     (let bw = gt0 bw0;
          safe_zone = safe_zone_of medial_axis distance_transform_edt bw min_thickness;
          rm_candidate = rm_candidate_of erosion_ball bw thin
      in mask_assign bw (logical_and safe_zone rm_candidate) False)"

text \<open>What the library functions are assumed to give: arrays as large as their argument.\<close>

definition slices_keep_size :: "(bool ndarray \<Rightarrow> bool ndarray) \<Rightarrow> (bool ndarray \<Rightarrow> real ndarray) \<Rightarrow> bool" where
  "slices_keep_size medial_axis distance_transform_edt =
     (\<forall>a. length (data (distance_transform_edt (invert (medial_axis a)))) = length (data a))"

definition erosion_keeps_size :: "(bool ndarray \<Rightarrow> nat \<Rightarrow> bool ndarray) \<Rightarrow> bool" where
  "erosion_keeps_size erosion_ball = (\<forall>a r. length (data (erosion_ball a r)) = length (data a))"

text \<open>Stand-ins for the three library functions on a one-row volume: a skeleton that is the
  first voxel of the row, the distance from that voxel along the row, and an erosion
  that removes everything.\<close>

definition first_voxel_axis :: "bool ndarray \<Rightarrow> bool ndarray" where
  "first_voxel_axis a = \<lparr>shape = shape a, data = map (\<lambda>i. data a ! i \<and> i = 0) [0..<length (data a)]\<rparr>"

definition row_distance :: "bool ndarray \<Rightarrow> real ndarray" where
  "row_distance a = \<lparr>shape = shape a, data = map real [0..<length (data a)]\<rparr>"

definition erode_all :: "bool ndarray \<Rightarrow> nat \<Rightarrow> bool ndarray" where
  "erode_all a r = \<lparr>shape = shape a, data = replicate (length (data a)) False\<rparr>"

section \<open>divide\_nonzero\<close>

text \<open>
  The model is the call on two arrays of 64-bit integers. \<open>np.copy\<close> keeps the dtype, so
  \<open>denominator\<close> is an array of integers too, and storing the float 1e-10 into it
  truncates the float towards zero. \<open>np.divide\<close> of two integer arrays is true division
  and returns floats: for a denominator that is not 0 a finite float, numpy's rounding of
  the quotient whose exact value \<open>Finite\<close> carries; for a denominator 0 one of \<open>inf\<close>,
  \<open>-inf\<close> and \<open>nan\<close>, with a warning and no exception.
\<close>

datatype float64 = Finite real | PosInf | NegInf | NaN

definition trunc :: "real \<Rightarrow> int" where
  "trunc v = (if v < 0 then \<lceil>v\<rceil> else \<lfloor>v\<rfloor>)"

text \<open>\<open>denominator == 0\<close>.\<close>

definition eq_zero :: "int ndarray \<Rightarrow> bool ndarray" where
  "eq_zero a = \<lparr>shape = shape a, data = map (\<lambda>x. x = 0) (data a)\<rparr>"

definition true_divide :: "int \<Rightarrow> int \<Rightarrow> float64" where
  "true_divide x d =
     (if d \<noteq> 0 then Finite (real_of_int x / real_of_int d)
      else if 0 < x then PosInf else if x < 0 then NegInf else NaN)"

definition np_divide :: "int ndarray \<Rightarrow> int ndarray \<Rightarrow> float64 ndarray" where
  "np_divide a b = \<lparr>shape = shape a, data = map2 true_divide (data a) (data b)\<rparr>"

text \<open>
  The arrays live in a heap and are passed by reference (an index into the heap), so
  that what the call does to the caller's arrays can be stated. \<open>np.copy\<close> allocates a
  new array.
\<close>

type_synonym heap = "int ndarray list"

definition np_copy :: "heap \<Rightarrow> nat \<Rightarrow> heap \<times> nat" where
  "np_copy h r = (h @ [h ! r], length h)"

definition divide_nonzero :: "heap \<Rightarrow> nat \<Rightarrow> nat \<Rightarrow> heap \<times> float64 ndarray" where
  "divide_nonzero h array1 array2 =
     (let (h, denominator) = np_copy h array2;
          d = h ! denominator;
          h = h[denominator := mask_assign d (eq_zero d) (trunc (1 / 10 ^ 10))]
      in (h, np_divide (h ! array1) (h ! denominator)))"

section \<open>absolute\_eigenvaluesh\<close>

text \<open>
  \<open>np.linalg.eigvalsh\<close> is a library function and a parameter of the model. It maps an
  array of shape \<open>batch @ [n, n]\<close> to the eigenvalues, of shape \<open>batch @ [n]\<close>: one row
  of \<open>n\<close> eigenvalues for each matrix.
\<close>

text \<open>The rows along the last axis of an array.\<close>

definition rows :: "'a ndarray \<Rightarrow> 'a list list" where
  "rows a = (let n = last (shape a) in
     map (\<lambda>r. take n (drop (r * n) (data a))) [0..<length (data a) div n])"

text \<open>\<open>argsort\<close>: the indices in the order of their keys (numpy leaves the order of equal
  keys open; the model keeps them in their original order). \<open>sortbyabs\<close> is called with
  \<open>axis=-1\<close> only: each row is reordered by the argsort of its absolute values.\<close>

definition argsort :: "real list \<Rightarrow> nat list" where
  "argsort ks = sort_key (\<lambda>i. ks ! i) [0..<length ks]"

definition sortbyabs :: "real ndarray \<Rightarrow> real ndarray" where
  "sortbyabs a = \<lparr>shape = shape a,
     data = concat (map (\<lambda>row. map (\<lambda>i. row ! i) (argsort (map abs row))) (rows a))\<rparr>"

text \<open>Piece \<open>k\<close> of \<open>np.split(a, n, axis=-1)\<close> with its last axis squeezed away.\<close>

definition split_squeeze :: "real ndarray \<Rightarrow> nat \<Rightarrow> real ndarray" where
  "split_squeeze a k = \<lparr>shape = butlast (shape a), data = map (\<lambda>row. row ! k) (rows a)\<rparr>"

text \<open>For a 0-dimensional \<open>eigenvalues\<close> the assignment \<open>index[axis] = ...\<close> raises
  IndexError; \<open>np.split\<close> into 0 sections raises ValueError.\<close>

definition absolute_eigenvaluesh :: "(real ndarray \<Rightarrow> real ndarray) \<Rightarrow> real ndarray \<Rightarrow> py_error + real ndarray list" where
  "absolute_eigenvaluesh eigvalsh nd_array =
     (let eigenvalues = eigvalsh nd_array in
      if shape eigenvalues = [] then Inl IndexError
      else let sorted_eigenvalues = sortbyabs eigenvalues in
        if last (shape sorted_eigenvalues) = 0 then Inl ValueError
        else Inr (map (split_squeeze sorted_eigenvalues) [0..<last (shape sorted_eigenvalues)]))"

text \<open>One row as \<open>sortbyabs\<close> reorders it.\<close>

definition sorted_row :: "real list \<Rightarrow> real list" where
  "sorted_row row = map (\<lambda>i. row ! i) (argsort (map abs row))"

text \<open>The contract of \<open>eigvalsh\<close> on one 2x2 matrix \<open>[[a, b], [c, d]]\<close>: two values, which
  are the roots of the characteristic polynomial \<open>(a - l)(d - l) - bc\<close>.\<close>

definition char_poly2 :: "real ndarray \<Rightarrow> real \<Rightarrow> real" where
  "char_poly2 m l = (data m ! 0 - l) * (data m ! 3 - l) - data m ! 1 * data m ! 2"

definition eigvalsh_ok2 :: "(real ndarray \<Rightarrow> real ndarray) \<Rightarrow> real ndarray \<Rightarrow> bool" where
  "eigvalsh_ok2 eigvalsh m = (shape (eigvalsh m) = [2] \<and> length (data (eigvalsh m)) = 2 \<and>
     (\<forall>l. (l \<in> set (data (eigvalsh m))) = (char_poly2 m l = 0)))"

text \<open>\<open>eigvalsh\<close> on one diagonal 2x2 matrix: the diagonal, in ascending order.\<close>

definition eigvalsh_diag2 :: "real ndarray \<Rightarrow> real ndarray" where
  "eigvalsh_diag2 m = \<lparr>shape = [2], data = sort [data m ! 0, data m ! 3]\<rparr>"

section \<open>get\_3dseed\_from\_mid\_frame\<close>

text \<open>
  \<open>remove_small_objects\<close>, \<open>label\<close> and \<open>regionprops\<close> are library functions and are
  parameters of the model; \<open>regionprops\<close> gives the centroid (row, column) of each
  labelled region, in the order of the labels. \<open>stack_shape\<close> is the shape of a 3D stack.
  \<open>np.zeros\<close> makes an array of floats; the seed ids are stored in it as floats.
\<close>















section \<open>Properties of hole\_filling\<close>

lemma length_fill_labels: "length (data (fill_labels label bw hmin hmax)) = length (data (label (invert bw)))"
  by (simp add: fill_labels_def Let_def mask_assign_def take_along_def)

lemma wf_slices: "wf_array a \<Longrightarrow> shape a \<noteq> [] \<Longrightarrow> length (data a) = hd (shape a) * slice_len a"
  by (cases "shape a") (simp_all add: wf_array_def slice_len_def)

lemma slice_bound: "zz < d \<Longrightarrow> zz * n + n \<le> d * (n::nat)"
proof -
  assume "zz < d"
  then have "Suc zz * n \<le> d * n" by (intro mult_le_mono1) simp
  then show ?thesis by simp
qed

lemma length_get_slice: "length (data a) = d * slice_len a \<Longrightarrow> zz < d \<Longrightarrow> length (data (get_slice a zz)) = slice_len a"
  using slice_bound[of zz d "slice_len a"] by (simp add: get_slice_def)

lemma nth_get_slice: "length (data a) = d * slice_len a \<Longrightarrow> zz < d \<Longrightarrow> i < slice_len a \<Longrightarrow>
   data (get_slice a zz) ! i = data a ! (zz * slice_len a + i)"
  using slice_bound[of zz d "slice_len a"] by (simp add: get_slice_def)

lemma length_set_slice: "length (data a) = d * slice_len a \<Longrightarrow> zz < d \<Longrightarrow> length xs = slice_len a
   \<Longrightarrow> length (data (set_slice a zz xs)) = length (data a)"
  using slice_bound[of zz d "slice_len a"] by (simp add: set_slice_def min_def)

lemma shape_set_slice: "shape (set_slice a zz xs) = shape a"
  by (simp add: set_slice_def)

lemma nth_set_slice: 
  assumes "length (data a) = d * slice_len a" "zz < d" "length xs = slice_len a" "i < length (data a)"
  shows "data (set_slice a zz xs) ! i = 
     (if zz * slice_len a \<le> i \<and> i < zz * slice_len a + slice_len a then xs ! (i - zz * slice_len a) else data a ! i)"
  using assms slice_bound[of zz d "slice_len a"] 
  by (auto simp add: set_slice_def nth_append min_def)

lemma slices_loop:
  assumes len: "length (data a) = d * slice_len a" and g: "\<forall>zz<d. length (g zz) = slice_len a" and k: "k \<le> d"
  shows "shape (foldl (\<lambda>fo zz. set_slice fo zz (g zz)) a [0..<k]) = shape a \<and>
         length (data (foldl (\<lambda>fo zz. set_slice fo zz (g zz)) a [0..<k])) = length (data a) \<and>
         (\<forall>i<length (data a). data (foldl (\<lambda>fo zz. set_slice fo zz (g zz)) a [0..<k]) ! i =
            (if i < k * slice_len a then g (i div slice_len a) ! (i mod slice_len a) else data a ! i))"
  using k
proof (induction k)
  case 0
  then show ?case by simp
next
  case (Suc k)
  let ?f = "foldl (\<lambda>fo zz. set_slice fo zz (g zz)) a [0..<k]"
  let ?n = "slice_len a"
  from Suc have IH: "shape ?f = shape a" "length (data ?f) = length (data a)"
     "\<forall>i<length (data a). data ?f ! i = (if i < k * ?n then g (i div ?n) ! (i mod ?n) else data a ! i)"
    by simp_all
  have sl: "slice_len ?f = ?n" using IH(1) by (simp add: slice_len_def)
  have kd: "k < d" using Suc.prems by simp
  have gk: "length (g k) = slice_len ?f" using g kd sl by simp
  have lenf: "length (data ?f) = d * slice_len ?f" using IH(2) len sl by simp
  have step: "foldl (\<lambda>fo zz. set_slice fo zz (g zz)) a [0..<Suc k] = set_slice ?f k (g k)" by simp
  have "\<forall>i<length (data a). data (set_slice ?f k (g k)) ! i =
            (if i < Suc k * ?n then g (i div ?n) ! (i mod ?n) else data a ! i)"
  proof (intro allI impI)
    fix i assume i: "i < length (data a)"
    then have "i < length (data ?f)" using IH(2) by simp
    from nth_set_slice[OF lenf kd gk this]
    have e: "data (set_slice ?f k (g k)) ! i = (if k * ?n \<le> i \<and> i < k * ?n + ?n then g k ! (i - k * ?n) else data ?f ! i)"
      using sl by simp
    show "data (set_slice ?f k (g k)) ! i = (if i < Suc k * ?n then g (i div ?n) ! (i mod ?n) else data a ! i)"
    proof (cases "k * ?n \<le> i \<and> i < k * ?n + ?n")
      case True
      then have npos: "0 < ?n" by (cases "?n") auto
      from True have d1: "i div ?n = k" 
        by (metis add.commute div_nat_eqI mult.commute mult_Suc)
      have "i mod ?n = i - k * ?n" using d1 by (metis minus_mult_div_eq_mod mult.commute)
      then show ?thesis using e True d1 by simp
    next
      case False
      then show ?thesis using e IH(3) i by auto
    qed
  qed
  then show ?case unfolding step using IH length_set_slice[OF lenf kd gk] by (simp add: shape_set_slice)
qed

lemma length_fill_slices:
  assumes wf: "wf_array bw" and ne: "shape bw \<noteq> []" and sp: "shape_preserving label"
  shows "shape (fill_slices label bw hmin hmax) = shape bw \<and>
         length (data (fill_slices label bw hmin hmax)) = length (data bw)"
proof -
  let ?g = "\<lambda>zz. data (astype_bool (fill_labels label (get_slice bw zz) hmin hmax))"
  let ?z = "zeros_like bw"
  have sl: "slice_len ?z = slice_len bw" by (simp add: slice_len_def zeros_like_def)
  have len: "length (data ?z) = hd (shape bw) * slice_len ?z"
    using wf_slices[OF wf ne] sl by (simp add: zeros_like_def)
  have g: "\<forall>zz<hd (shape bw). length (?g zz) = slice_len ?z"
  proof (intro allI impI)
    fix zz assume "zz < hd (shape bw)"
    then have "length (data (get_slice bw zz)) = slice_len bw"
      using length_get_slice wf_slices[OF wf ne] by blast
    then show "length (?g zz) = slice_len ?z"
      using sp by (simp add: astype_bool_def length_fill_labels shape_preserving_def invert_def sl)
  qed
  from slices_loop[OF len g order_refl]
  show ?thesis by (simp add: fill_slices_def zeros_like_def)
qed

text \<open>
  Claim C1. For a 2D or 3D input, whatever \<open>hole_min\<close>, \<open>hole_max\<close> and \<open>fill_2d\<close> are,
  \<open>hole_filling\<close> returns an array of the input's shape in which every voxel that is
  positive in the input is True.
\<close>

theorem hole_filling_superset:
  assumes wf: "wf_array bw0" and nd: "ndim bw0 = 2 \<or> ndim bw0 = 3" and sp: "shape_preserving label"
  shows "\<exists>out. hole_filling label bw0 hole_min hole_max fill_2d = ([], Some out) \<and>
           shape out = shape bw0 \<and> length (data out) = length (data bw0) \<and>
           (\<forall>i<length (data bw0). 0 < data bw0 ! i \<longrightarrow> data out ! i)"
proof -
  let ?bw = "gt0 bw0"
  have wfb: "wf_array ?bw" using wf by (simp add: wf_array_def gt0_def)
  have ne: "shape ?bw \<noteq> []" using nd by (auto simp: ndim_def gt0_def)
  have lenL: "length (data (astype_bool (fill_labels label ?bw hole_min hole_max))) = length (data ?bw)"
    using sp by (simp add: astype_bool_def length_fill_labels shape_preserving_def invert_def)
  have lenS: "length (data (fill_slices label ?bw hole_min hole_max)) = length (data ?bw)"
    using length_fill_slices[OF wfb ne sp] by simp
  have keep: "\<And>b. length (data b) = length (data ?bw) \<Longrightarrow>
     shape (logical_or ?bw b) = shape bw0 \<and> length (data (logical_or ?bw b)) = length (data bw0) \<and>
     (\<forall>i<length (data bw0). 0 < data bw0 ! i \<longrightarrow> data (logical_or ?bw b) ! i)"
    by (simp add: logical_or_def gt0_def)
  show ?thesis
  proof (cases "length (shape bw0) = 2")
    case True
    then have "hole_filling label bw0 hole_min hole_max fill_2d =
       ([], Some (logical_or ?bw (astype_bool (fill_labels label ?bw hole_min hole_max))))"
      by (simp add: hole_filling_def gt0_def Let_def)
    then show ?thesis using keep[OF lenL] by simp
  next
    case False
    then have three: "length (shape bw0) = 3" using nd by (simp add: ndim_def)
    show ?thesis
    proof (cases fill_2d)
      case True
      then have "hole_filling label bw0 hole_min hole_max fill_2d =
         ([], Some (logical_or ?bw (fill_slices label ?bw hole_min hole_max)))"
        using three by (simp add: hole_filling_def gt0_def Let_def)
      then show ?thesis using keep[OF lenS] by simp
    next
      case False
      then have "hole_filling label bw0 hole_min hole_max fill_2d =
         ([], Some (logical_or ?bw (astype_bool (fill_labels label ?bw hole_min hole_max))))"
        using three by (simp add: hole_filling_def gt0_def Let_def)
      then show ?thesis using keep[OF lenL] by simp
    qed
  qed
qed

theorem hole_filling_superset_witness:
  "wf_array \<lparr>shape = [1, 1, 2], data = [1, 0 :: int]\<rparr> \<and>
   ndim \<lparr>shape = [1, 1, 2], data = [1, 0 :: int]\<rparr> = 3 \<and>
   shape_preserving label_all_one \<and>
   (\<exists>out. hole_filling label_all_one \<lparr>shape = [1, 1, 2], data = [1, 0]\<rparr> 1 5 True = ([], Some out) \<and>
      shape out = [1, 1, 2] \<and> length (data out) = 2 \<and> data out ! 0)"
proof -
  let ?a = "\<lparr>shape = [1, 1, 2], data = [1, 0 :: int]\<rparr>"
  have h1: "wf_array ?a" by (simp add: wf_array_def)
  have h2: "ndim ?a = 3" by (simp add: ndim_def)
  have h3: "shape_preserving label_all_one" by (simp add: shape_preserving_def label_all_one_def)
  from hole_filling_superset[OF h1 disjI2[OF h2] h3, of 1 5 True]
  show ?thesis using h1 h2 h3 by auto
qed

text \<open>
  Claim C7, amended. For an input whose number of dimensions is neither 2 nor 3, the call
  prints \<open>error\<close> and returns \<open>None\<close>: it raises no exception, and no array, whole or
  partial, comes back.
\<close>

theorem hole_filling_rejects_other_ndim:
  "ndim bw0 \<noteq> 2 \<and> ndim bw0 \<noteq> 3 \<longrightarrow>
     hole_filling label bw0 hole_min hole_max fill_2d = ([''error''], None) \<and>
     hole_filling_call label bw0 hole_min hole_max fill_2d = Returns None"
  by (simp add: hole_filling_call_def hole_filling_def gt0_def ndim_def)

theorem hole_filling_rejects_other_ndim_witness:
  "ndim \<lparr>shape = [2, 1, 1, 2], data = [1, 0, 0, 1 :: int]\<rparr> = 4 \<and>
   hole_filling label_all_one \<lparr>shape = [2, 1, 1, 2], data = [1, 0, 0, 1]\<rparr> 0 10 True = ([''error''], None) \<and>
   hole_filling_call label_all_one \<lparr>shape = [2, 1, 1, 2], data = [1, 0, 0, 1]\<rparr> 0 10 True = Returns None"
  using hole_filling_rejects_other_ndim[of "\<lparr>shape = [2, 1, 1, 2], data = [1, 0, 0, 1 :: int]\<rparr>" label_all_one 0 10 True]
  by (simp add: ndim_def)

text \<open>
  Claim C7 as stated fails: on a one-dimensional input the call is not rejected with an
  error. It prints \<open>error\<close> and returns normally, with the value \<open>None\<close>.
\<close>

theorem hole_filling_1d_returns_none_counterexample:
  "ndim \<lparr>shape = [4], data = [1, 0, 0, 1 :: int]\<rparr> = 1 \<and>
   fst (hole_filling label_all_one \<lparr>shape = [4], data = [1, 0, 0, 1]\<rparr> 0 10 True) = [''error''] \<and>
   hole_filling_call label_all_one \<lparr>shape = [4], data = [1, 0, 0, 1]\<rparr> 0 10 True = Returns None \<and>
   hole_filling_call label_all_one \<lparr>shape = [4], data = [1, 0, 0, 1]\<rparr> 0 10 True \<noteq> Raises ValueError"
  by (simp add: hole_filling_call_def hole_filling_def gt0_def ndim_def)

lemma length_filter_map_eq: "length (filter ((=) v) (map f ys)) = length (filter (\<lambda>j. f j = v) ys)"
  by (induction ys) auto

lemma count_list_index: "count_list xs v = length (filter (\<lambda>j. xs ! j = v) [0..<length xs])"
proof -
  have "count_list xs v = length (filter ((=) v) (map ((!) xs) [0..<length xs]))"
    by (simp only: map_nth count_list_eq_length_filter)
  then show ?thesis by (simp only: length_filter_map_eq)
qed

lemma bincount_nth: "l \<in> set xs \<Longrightarrow> l < length (bincount xs) \<and> bincount xs ! l = count_list xs l"
proof -
  assume l: "l \<in> set xs"
  then have ne: "xs \<noteq> []" by auto
  have "l \<le> Max (set xs)" using l by simp
  then have lt: "l < Suc (Max (set xs))" by simp
  have "length (bincount xs) = Suc (Max (set xs))" using ne by (simp add: bincount_def)
  moreover have "bincount xs ! l = count_list xs l"
    using ne lt by (simp add: bincount_def del: upt_Suc)
  ultimately show ?thesis using lt by simp
qed

lemma fill_labels_nth:
  assumes i: "i < length (data (label (invert bw)))"
  shows "data (fill_labels label bw hole_min hole_max) ! i =
     (if hole_max < int (count_list (data (label (invert bw))) (data (label (invert bw)) ! i)) \<or>
         int (count_list (data (label (invert bw))) (data (label (invert bw)) ! i)) < hole_min
      then 0 else data (label (invert bw)) ! i)"
proof -
  let ?L = "data (label (invert bw))"
  have "?L ! i \<in> set ?L" using i by simp
  from bincount_nth[OF this] show ?thesis using i
    by (simp add: fill_labels_def Let_def mask_assign_def take_along_def)
qed

lemma connected_in_mask:
  "connected a i j \<Longrightarrow> i \<noteq> j \<Longrightarrow> i < length (data a) \<and> j < length (data a) \<and> data a ! i \<and> data a ! j"
  unfolding connected_def
proof (induction rule: rtranclp_induct)
  case base
  then show ?case by simp
next
  case (step y z)
  then show ?case by (cases "i = y") (auto simp: mask_step_def)
qed

lemma labelling_count:
  assumes L: "is_labelling a L" and i: "i < length (data a)" and m: "data a ! i"
  shows "count_list (data L) (data L ! i) = component_size a i"
proof -
  have len: "length (data L) = length (data a)" using L by (simp add: is_labelling_def)
  have "\<And>j. j < length (data a) \<Longrightarrow> (data L ! j = data L ! i) = connected a i j"
  proof -
    fix j assume j: "j < length (data a)"
    show "(data L ! j = data L ! i) = connected a i j"
    proof (cases "data a ! j")
      case True
      then show ?thesis using L i j m unfolding is_labelling_def by metis
    next
      case False
      then have "data L ! j = 0" "data L ! i \<noteq> 0" using L i j m by (auto simp: is_labelling_def)
      moreover have "\<not> connected a i j" using connected_in_mask[of a i j] False m by auto
      ultimately show ?thesis by simp
    qed
  qed
  then have "filter (\<lambda>j. data L ! j = data L ! i) [0..<length (data a)] = filter (connected a i) [0..<length (data a)]"
    by (intro filter_cong) auto
  then show ?thesis by (simp add: count_list_index len component_size_def)
qed

text \<open>Whether the source fills a background voxel, in terms of its component.\<close>

lemma fill_labels_background:
  assumes L: "is_labelling (invert bw) (label (invert bw))" and i: "i < length (data bw)" and b: "\<not> data bw ! i"
  shows "(data (fill_labels label bw hole_min hole_max) ! i \<noteq> 0) =
     (hole_min \<le> int (component_size (invert bw) i) \<and> int (component_size (invert bw) i) \<le> hole_max)"
proof -
  let ?a = "invert bw"
  have ia: "i < length (data ?a)" using i by (simp add: invert_def)
  have ma: "data ?a ! i" using i b by (simp add: invert_def)
  have len: "length (data (label ?a)) = length (data ?a)" using L by (simp add: is_labelling_def)
  have nz: "data (label ?a) ! i \<noteq> 0" using L ia ma by (simp add: is_labelling_def)
  show ?thesis using fill_labels_nth[of i label bw hole_min hole_max] labelling_count[OF L ia ma] ia len nz
    by auto
qed

lemma fill_labels_foreground:
  assumes L: "is_labelling (invert bw) (label (invert bw))" and i: "i < length (data bw)" and b: "data bw ! i"
  shows "data (fill_labels label bw hole_min hole_max) ! i = 0"
proof -
  let ?a = "invert bw"
  have ia: "i < length (data ?a)" using i by (simp add: invert_def)
  have ma: "\<not> data ?a ! i" using i b by (simp add: invert_def)
  have len: "length (data (label ?a)) = length (data ?a)" using L by (simp add: is_labelling_def)
  have nz: "data (label ?a) ! i = 0" using L ia ma by (simp add: is_labelling_def)
  show ?thesis using fill_labels_nth[of i label bw hole_min hole_max] ia len nz
    by auto
qed

text \<open>
  Claim C2. On a 2D input, a background voxel is True in the result exactly when the
  size of its connected component of the inverted mask lies between \<open>hole_min\<close> and
  \<open>hole_max\<close>, both included.
\<close>

theorem hole_filling_2d_fills_by_size:
  assumes nd: "ndim bw0 = 2"
    and L: "is_labelling (invert (gt0 bw0)) (label (invert (gt0 bw0)))"
  shows "\<exists>out. hole_filling label bw0 hole_min hole_max fill_2d = ([], Some out) \<and>
     (\<forall>i<length (data bw0). \<not> 0 < data bw0 ! i \<longrightarrow>
        data out ! i = (hole_min \<le> int (component_size (invert (gt0 bw0)) i) \<and>
                        int (component_size (invert (gt0 bw0)) i) \<le> hole_max))"
proof -
  let ?bw = "gt0 bw0"
  let ?out = "logical_or ?bw (astype_bool (fill_labels label ?bw hole_min hole_max))"
  have eq: "hole_filling label bw0 hole_min hole_max fill_2d = ([], Some ?out)"
    using nd by (simp add: hole_filling_def gt0_def Let_def ndim_def)
  have len: "length (data (fill_labels label ?bw hole_min hole_max)) = length (data ?bw)"
    using L by (simp add: length_fill_labels is_labelling_def invert_def)
  have "\<forall>i<length (data bw0). \<not> 0 < data bw0 ! i \<longrightarrow>
        data ?out ! i = (hole_min \<le> int (component_size (invert ?bw) i) \<and>
                        int (component_size (invert ?bw) i) \<le> hole_max)"
  proof (intro allI impI)
    fix i assume i: "i < length (data bw0)" and b: "\<not> 0 < data bw0 ! i"
    have ib: "i < length (data ?bw)" using i by (simp add: gt0_def)
    have nb: "\<not> data ?bw ! i" using i b by (simp add: gt0_def)
    have "data ?out ! i = (data (fill_labels label ?bw hole_min hole_max) ! i \<noteq> 0)"
      using ib nb len by (simp add: logical_or_def astype_bool_def)
    then show "data ?out ! i = (hole_min \<le> int (component_size (invert ?bw) i) \<and>
                        int (component_size (invert ?bw) i) \<le> hole_max)"
      using fill_labels_background[of ?bw label i hole_min hole_max, OF L ib nb] by simp
  qed
  then show ?thesis using eq by blast
qed

lemma label_all_one_labelling:
  assumes "\<forall>i<length (data a). \<forall>j<length (data a). data a ! i \<longrightarrow> data a ! j \<longrightarrow> connected a i j"
  shows "is_labelling a (label_all_one a)"
  using assms by (simp add: is_labelling_def label_all_one_def)

lemma connected_step: "mask_step a i j \<Longrightarrow> connected a i j"
  by (simp add: connected_def)

lemma connected_refl: "connected a i i"
  by (simp add: connected_def)

theorem hole_filling_2d_fills_by_size_witness:
  "ndim \<lparr>shape = [1, 3], data = [0, 0, 1 :: int]\<rparr> = 2 \<and>
   is_labelling (invert (gt0 \<lparr>shape = [1, 3], data = [0, 0, 1]\<rparr>))
      (label_all_one (invert (gt0 \<lparr>shape = [1, 3], data = [0, 0, 1]\<rparr>))) \<and>
   hole_filling label_all_one \<lparr>shape = [1, 3], data = [0, 0, 1]\<rparr> 2 2 True
      = ([], Some \<lparr>shape = [1, 3], data = [True, True, True]\<rparr>) \<and>
   component_size (invert (gt0 \<lparr>shape = [1, 3], data = [0, 0, 1]\<rparr>)) 0 = 2"
proof -
  let ?A = "\<lparr>shape = [1, 3], data = [0, 0, 1 :: int]\<rparr>"
  let ?a = "invert (gt0 ?A)"
  have a: "?a = \<lparr>shape = [1, 3], data = [True, True, False]\<rparr>" by (simp add: invert_def gt0_def)
  have h1: "ndim ?A = 2" by (simp add: ndim_def)
  have s01: "mask_step ?a 0 1" unfolding a by (simp add: mask_step_def adjacent1_def)
  have s10: "mask_step ?a 1 0" unfolding a by (simp add: mask_step_def adjacent1_def)
  have "\<forall>i<length (data ?a). \<forall>j<length (data ?a). data ?a ! i \<longrightarrow> data ?a ! j \<longrightarrow> connected ?a i j"
  proof (intro allI impI)
    fix i j assume "i < length (data ?a)" "j < length (data ?a)" "data ?a ! i" "data ?a ! j"
    then have "i = 0 \<or> i = 1" "j = 0 \<or> j = 1" unfolding a by (auto simp: less_Suc_eq numeral_3_eq_3)
    then show "connected ?a i j" using connected_step[OF s01] connected_step[OF s10] connected_refl by auto
  qed
  then have h2: "is_labelling ?a (label_all_one ?a)" by (rule label_all_one_labelling)
  have run: "hole_filling label_all_one ?A 2 2 True = ([], Some \<lparr>shape = [1, 3], data = [True, True, True]\<rparr>)"
    by (simp add: hole_filling_def gt0_def invert_def Let_def logical_or_def astype_bool_def
        fill_labels_def label_all_one_def bincount_def mask_assign_def take_along_def)
  from hole_filling_2d_fills_by_size[of ?A label_all_one 2 2 True, OF h1 h2]
  have "(2::int) \<le> int (component_size ?a 0) \<and> int (component_size ?a 0) \<le> 2"
    unfolding run by auto
  then have "component_size ?a 0 = 2" by simp
  then show ?thesis using h1 h2 run by simp
qed

subsection \<open>Idempotence\<close>

lemma fill_once_shape: "shape (fill_once label bw hmin hmax) = shape bw"
  by (simp add: fill_once_def logical_or_def)

lemma fill_once_length:
  assumes L: "is_labelling (invert bw) (label (invert bw))"
  shows "length (data (fill_once label bw hmin hmax)) = length (data bw)"
  using L by (simp add: fill_once_def logical_or_def astype_bool_def length_fill_labels is_labelling_def invert_def)

lemma fill_once_nth:
  assumes L: "is_labelling (invert bw) (label (invert bw))" and i: "i < length (data bw)"
  shows "data (fill_once label bw hmin hmax) ! i =
     (data bw ! i \<or> (hmin \<le> int (component_size (invert bw) i) \<and> int (component_size (invert bw) i) \<le> hmax))"
proof -
  have len: "length (data (fill_labels label bw hmin hmax)) = length (data bw)"
    using L by (simp add: length_fill_labels is_labelling_def invert_def)
  have e: "data (fill_once label bw hmin hmax) ! i = (data bw ! i \<or> data (fill_labels label bw hmin hmax) ! i \<noteq> 0)"
    using i len by (simp add: fill_once_def logical_or_def astype_bool_def)
  show ?thesis
  proof (cases "data bw ! i")
    case True
    then show ?thesis using e by simp
  next
    case False
    then show ?thesis using e fill_labels_background[of bw label i hmin hmax, OF L i False] by simp
  qed
qed

lemma same_component_size:
  assumes L: "is_labelling a L" and c: "connected a i j"
    and i: "i < length (data a)" "data a ! i"
  shows "component_size a j = component_size a i"
proof (cases "i = j")
  case True
  then show ?thesis by simp
next
  case False
  from connected_in_mask[OF c False] have j: "j < length (data a)" "data a ! j" by simp_all
  have "data L ! i = data L ! j" using L i j c unfolding is_labelling_def by metis
  then show ?thesis using labelling_count[OF L i] labelling_count[OF L j] by simp
qed

lemma connected_mono:
  assumes "\<And>x y. mask_step a x y \<Longrightarrow> mask_step b x y" and "connected a i j"
  shows "connected b i j"
  using assms(2) unfolding connected_def
  by (induction rule: rtranclp_induct) (auto intro: assms(1) rtranclp.rtrancl_into_rtrancl)

text \<open>Removing whole components of a mask, chosen by size, leaves the other components as they are.\<close>

lemma connected_after_fill:
  assumes L: "is_labelling a L"
    and sh: "shape a' = shape a" and len: "length (data a') = length (data a)"
    and a': "\<forall>k<length (data a). data a' ! k = (data a ! k \<and> \<not> P (component_size a k))"
    and i: "i < length (data a)" "data a' ! i"
  shows "connected a' i j = connected a i j"
proof
  assume "connected a' i j"
  moreover have "\<And>x y. mask_step a' x y \<Longrightarrow> mask_step a x y"
    using a' sh len by (auto simp: mask_step_def)
  ultimately show "connected a i j" by (rule connected_mono[rotated])
next
  have ia: "data a ! i" "\<not> P (component_size a i)" using a' i by auto
  assume "connected a i j"
  then show "connected a' i j" unfolding connected_def
  proof (induction rule: rtranclp_induct)
    case base
    then show ?case by simp
  next
    case (step y z)
    have ciy: "connected a i y" using step.hyps(1) by (simp add: connected_def)
    have ciz: "connected a i z" using step.hyps(1,2) by (simp add: connected_def)
    have sy: "component_size a y = component_size a i" by (rule same_component_size[OF L ciy i(1) ia(1)])
    have sz: "component_size a z = component_size a i" by (rule same_component_size[OF L ciz i(1) ia(1)])
    have "mask_step a y z" by (rule step.hyps(2))
    then have "mask_step a' y z" using a' sh len sy sz ia(2) by (auto simp: mask_step_def)
    then show ?case using step.IH by (rule rtranclp.rtrancl_into_rtrancl[rotated])
  qed
qed

lemma component_size_after_fill:
  assumes L: "is_labelling a L"
    and sh: "shape a' = shape a" and len: "length (data a') = length (data a)"
    and a': "\<forall>k<length (data a). data a' ! k = (data a ! k \<and> \<not> P (component_size a k))"
    and i: "i < length (data a)" "data a' ! i"
  shows "component_size a' i = component_size a i"
proof -
  have "connected a' i = connected a i"
    using connected_after_fill[OF L sh len a' i] by (intro ext)
  then show ?thesis by (simp add: component_size_def len)
qed

lemma fill_once_idem:
  assumes L: "is_labelling (invert bw) (label (invert bw))"
    and L': "is_labelling (invert (fill_once label bw hmin hmax)) (label (invert (fill_once label bw hmin hmax)))"
  shows "fill_once label (fill_once label bw hmin hmax) hmin hmax = fill_once label bw hmin hmax"
proof -
  let ?out = "fill_once label bw hmin hmax"
  let ?a = "invert bw" and ?a' = "invert ?out"
  let ?P = "\<lambda>c. hmin \<le> int c \<and> int c \<le> hmax"
  have len: "length (data ?out) = length (data bw)" by (rule fill_once_length[of bw label, OF L])
  have sh: "shape ?a' = shape ?a" by (simp add: invert_def fill_once_shape)
  have la: "length (data ?a') = length (data ?a)" using len by (simp add: invert_def)
  have lab: "length (data ?a) = length (data bw)" by (simp add: invert_def)
  have a': "\<forall>k<length (data ?a). data ?a' ! k = (data ?a ! k \<and> \<not> ?P (component_size ?a k))"
  proof (intro allI impI)
    fix k assume "k < length (data ?a)"
    then have k: "k < length (data bw)" by (simp add: invert_def)
    show "data ?a' ! k = (data ?a ! k \<and> \<not> ?P (component_size ?a k))"
      using fill_once_nth[of bw label k hmin hmax, OF L k] k len by (simp add: invert_def)
  qed
  have "data (fill_once label ?out hmin hmax) = data ?out"
  proof (rule nth_equalityI)
    show "length (data (fill_once label ?out hmin hmax)) = length (data ?out)"
      by (rule fill_once_length[of ?out label, OF L'])
  next
    fix i assume "i < length (data (fill_once label ?out hmin hmax))"
    then have i: "i < length (data ?out)" using fill_once_length[of ?out label, OF L'] by simp
    have e: "data (fill_once label ?out hmin hmax) ! i =
       (data ?out ! i \<or> ?P (component_size ?a' i))"
      by (rule fill_once_nth[of ?out label i hmin hmax, OF L' i])
    show "data (fill_once label ?out hmin hmax) ! i = data ?out ! i"
    proof (cases "data ?out ! i")
      case True
      then show ?thesis using e by simp
    next
      case False
      have ia: "i < length (data ?a)" using i len lab by simp
      have m: "data ?a' ! i" using False i by (simp add: invert_def)
      have "component_size ?a' i = component_size ?a i"
        by (rule component_size_after_fill[OF L sh la a' ia m])
      moreover have "\<not> ?P (component_size ?a i)" using a' ia m by blast
      ultimately show ?thesis using e False by simp
    qed
  qed
  then show ?thesis by (simp add: fill_once_shape ndarray.equality)
qed

lemma gt0_as_int: "gt0 (as_int a) = a"
  by (simp add: gt0_def as_int_def comp_def ndarray.equality map_idI)

lemma fill_slices_nth:
  assumes wf: "wf_array bw" and ne: "shape bw \<noteq> []"
    and sp: "\<forall>zz<hd (shape bw). length (data (label (invert (get_slice bw zz)))) = slice_len bw"
  shows "shape (fill_slices label bw hmin hmax) = shape bw \<and>
         length (data (fill_slices label bw hmin hmax)) = length (data bw) \<and>
         (\<forall>i<length (data bw). data (fill_slices label bw hmin hmax) ! i =
            data (astype_bool (fill_labels label (get_slice bw (i div slice_len bw)) hmin hmax)) ! (i mod slice_len bw))"
proof -
  let ?g = "\<lambda>zz. data (astype_bool (fill_labels label (get_slice bw zz) hmin hmax))"
  let ?z = "zeros_like bw"
  have sl: "slice_len ?z = slice_len bw" by (simp add: slice_len_def zeros_like_def)
  have lz: "length (data ?z) = length (data bw)" by (simp add: zeros_like_def)
  have len: "length (data ?z) = hd (shape bw) * slice_len ?z"
    using wf_slices[OF wf ne] sl by (simp add: zeros_like_def)
  have g: "\<forall>zz<hd (shape bw). length (?g zz) = slice_len ?z"
    using sp by (simp add: astype_bool_def length_fill_labels sl)
  from slices_loop[OF len g order_refl] len
  show ?thesis unfolding fill_slices_def sl lz by (simp add: zeros_like_def)
qed

lemma div_mod_slice: "k < n \<Longrightarrow> (zz * n + k) div n = zz \<and> (zz * n + k) mod (n::nat) = k"
  by simp

lemma slice_of_filled:
  assumes wf: "wf_array bw" and ne: "shape bw \<noteq> []"
    and L: "\<forall>zz<hd (shape bw). is_labelling (invert (get_slice bw zz)) (label (invert (get_slice bw zz)))"
    and zz: "zz < hd (shape bw)"
  shows "get_slice (logical_or bw (fill_slices label bw hmin hmax)) zz = fill_once label (get_slice bw zz) hmin hmax"
proof -
  let ?n = "slice_len bw" and ?fs = "fill_slices label bw hmin hmax"
  let ?out = "logical_or bw ?fs"
  have len: "length (data bw) = hd (shape bw) * ?n" by (rule wf_slices[OF wf ne])
  have lsl: "\<forall>zz<hd (shape bw). length (data (get_slice bw zz)) = ?n"
    using length_get_slice[OF len] by simp
  have sp: "\<forall>zz<hd (shape bw). length (data (label (invert (get_slice bw zz)))) = ?n"
    using L lsl by (simp add: is_labelling_def invert_def)
  note fs = fill_slices_nth[OF wf ne sp, of hmin hmax]
  have lo: "length (data ?out) = hd (shape bw) * slice_len ?out"
    using fs len by (simp add: logical_or_def slice_len_def)
  have so: "slice_len ?out = ?n" by (simp add: logical_or_def slice_len_def)
  have Lz: "is_labelling (invert (get_slice bw zz)) (label (invert (get_slice bw zz)))" using L zz by simp
  have l1: "length (data (get_slice ?out zz)) = ?n" using length_get_slice[OF lo zz] so by simp
  have l2: "length (data (fill_once label (get_slice bw zz) hmin hmax)) = ?n"
    using fill_once_length[of "get_slice bw zz" label, OF Lz] lsl zz by simp
  have lf: "length (data (fill_labels label (get_slice bw zz) hmin hmax)) = ?n"
    using sp zz by (simp add: length_fill_labels)
  have "data (get_slice ?out zz) = data (fill_once label (get_slice bw zz) hmin hmax)"
  proof (rule nth_equalityI)
    show "length (data (get_slice ?out zz)) = length (data (fill_once label (get_slice bw zz) hmin hmax))"
      using l1 l2 by simp
  next
    fix k assume "k < length (data (get_slice ?out zz))"
    then have k: "k < ?n" using l1 by simp
    have ko: "k < slice_len ?out" using k so by simp
    have b: "zz * ?n + k < length (data bw)" using slice_bound[OF zz, of ?n] k len by simp
    have "data (get_slice ?out zz) ! k = data ?out ! (zz * ?n + k)"
      using nth_get_slice[OF lo zz ko] so by simp
    also have "\<dots> = (data bw ! (zz * ?n + k) \<or> data ?fs ! (zz * ?n + k))"
      using b fs by (simp add: logical_or_def)
    also have "data ?fs ! (zz * ?n + k) = data (astype_bool (fill_labels label (get_slice bw zz) hmin hmax)) ! k"
      using fs b div_mod_slice[OF k, of zz] by simp
    also have "data bw ! (zz * ?n + k) = data (get_slice bw zz) ! k"
      using nth_get_slice[OF len zz k] by simp
    finally show "data (get_slice ?out zz) ! k = data (fill_once label (get_slice bw zz) hmin hmax) ! k"
      using k lsl zz lf by (simp add: fill_once_def logical_or_def astype_bool_def)
  qed
  moreover have "shape (get_slice ?out zz) = shape (fill_once label (get_slice bw zz) hmin hmax)"
    by (simp add: fill_once_shape get_slice_def logical_or_def)
  ultimately show ?thesis by (intro ndarray.equality) simp_all
qed

lemma hole_filling_whole:
  assumes "length (shape bw0) = 2 \<or> (length (shape bw0) = 3 \<and> \<not> fill_2d)"
  shows "hole_filling label bw0 hmin hmax fill_2d = ([], Some (fill_once label (gt0 bw0) hmin hmax))"
  using assms by (auto simp: hole_filling_def gt0_def Let_def fill_once_def)

lemma hole_filling_sliced:
  assumes "length (shape bw0) = 3" "fill_2d"
  shows "hole_filling label bw0 hmin hmax fill_2d =
     ([], Some (logical_or (gt0 bw0) (fill_slices label (gt0 bw0) hmin hmax)))"
  using assms by (auto simp: hole_filling_def gt0_def Let_def)

lemma fill_sliced_idem:
  assumes wf: "wf_array bw" and ne: "shape bw \<noteq> []"
    and L: "\<forall>zz<hd (shape bw). is_labelling (invert (get_slice bw zz)) (label (invert (get_slice bw zz)))"
    and out: "out = logical_or bw (fill_slices label bw hmin hmax)"
    and L': "\<forall>zz<hd (shape bw). is_labelling (invert (get_slice out zz)) (label (invert (get_slice out zz)))"
  shows "logical_or out (fill_slices label out hmin hmax) = out"
proof -
  let ?n = "slice_len bw" and ?d = "hd (shape bw)"
  have len: "length (data bw) = ?d * ?n" by (rule wf_slices[OF wf ne])
  have lsl: "\<forall>zz<?d. length (data (get_slice bw zz)) = ?n"
    using length_get_slice[OF len] by simp
  have sp: "\<forall>zz<?d. length (data (label (invert (get_slice bw zz)))) = ?n"
    using L lsl by (simp add: is_labelling_def invert_def)
  note fs = fill_slices_nth[OF wf ne sp, of hmin hmax]
  have sho: "shape out = shape bw" by (simp add: out logical_or_def)
  have leno: "length (data out) = length (data bw)" using fs by (simp add: out logical_or_def)
  have wfo: "wf_array out" using wf sho leno by (simp add: wf_array_def)
  have neo: "shape out \<noteq> []" using ne sho by simp
  have slo: "slice_len out = ?n" using sho by (simp add: slice_len_def)
  have lo: "length (data out) = ?d * slice_len out" using leno len slo by simp
  have lslo: "\<forall>zz<?d. length (data (get_slice out zz)) = ?n"
    using length_get_slice[OF lo] slo by simp
  have spo: "\<forall>zz<hd (shape out). length (data (label (invert (get_slice out zz)))) = slice_len out"
    using L' lslo sho slo by (simp add: is_labelling_def invert_def)
  note fso = fill_slices_nth[OF wfo neo spo, of hmin hmax]
  have "data (logical_or out (fill_slices label out hmin hmax)) = data out"
  proof (rule nth_equalityI)
    show "length (data (logical_or out (fill_slices label out hmin hmax))) = length (data out)"
      using fso by (simp add: logical_or_def)
  next
    fix i assume "i < length (data (logical_or out (fill_slices label out hmin hmax)))"
    then have i: "i < length (data out)" using fso by (simp add: logical_or_def)
    let ?zz = "i div ?n" and ?k = "i mod ?n"
    have npos: "0 < ?n" using i lo slo by (cases "?n") auto
    have k: "?k < ?n" using npos by simp
    have zz: "?zz < ?d" using i lo slo npos by (simp add: less_mult_imp_div_less)
    let ?S = "get_slice out ?zz"
    have Lz: "is_labelling (invert (get_slice bw ?zz)) (label (invert (get_slice bw ?zz)))" using L zz by simp
    have Lz': "is_labelling (invert ?S) (label (invert ?S))" using L' zz by simp
    have S: "?S = fill_once label (get_slice bw ?zz) hmin hmax"
      unfolding out by (rule slice_of_filled[OF wf ne L zz])
    have "fill_once label ?S hmin hmax = ?S"
      using fill_once_idem[of "get_slice bw ?zz" label hmin hmax, OF Lz] Lz' S by simp
    then have "data (fill_once label ?S hmin hmax) ! ?k = data ?S ! ?k" by simp
    moreover have "length (data (fill_labels label ?S hmin hmax)) = ?n"
      using spo zz sho slo by (simp add: length_fill_labels)
    ultimately have imp: "data (astype_bool (fill_labels label ?S hmin hmax)) ! ?k \<longrightarrow> data ?S ! ?k"
      using k lslo zz by (auto simp add: fill_once_def logical_or_def astype_bool_def)
    have "data ?S ! ?k = data out ! (?zz * ?n + ?k)"
      using nth_get_slice[OF lo zz] k slo by simp
    then have Sk: "data ?S ! ?k = data out ! i" by simp
    have "data (fill_slices label out hmin hmax) ! i = data (astype_bool (fill_labels label ?S hmin hmax)) ! ?k"
      using fso i slo by simp
    then show "data (logical_or out (fill_slices label out hmin hmax)) ! i = data out ! i"
      using i fso imp Sk by (auto simp: logical_or_def)
  qed
  then show ?thesis by (intro ndarray.equality) (simp_all add: logical_or_def)
qed

text \<open>
  Claim C8. \<open>hole_filling\<close> is idempotent: with the same \<open>hole_min\<close>, \<open>hole_max\<close> and
  \<open>fill_2d\<close>, applying it to its own result gives that result again. \<open>label\<close> is
  assumed to meet its contract on the masks the two calls pass to it.
\<close>

theorem hole_filling_idempotent:
  assumes wf: "wf_array bw0" and nd: "ndim bw0 = 2 \<or> ndim bw0 = 3"
    and L: "labels_ok label (gt0 bw0) fill_2d"
  shows "\<exists>out. hole_filling label bw0 hole_min hole_max fill_2d = ([], Some out) \<and>
     (labels_ok label out fill_2d \<longrightarrow>
        hole_filling label (as_int out) hole_min hole_max fill_2d = ([], Some out))"
proof (cases "length (shape bw0) = 3 \<and> fill_2d")
  case False
  then have w: "length (shape bw0) = 2 \<or> (length (shape bw0) = 3 \<and> \<not> fill_2d)"
    using nd by (auto simp: ndim_def)
  let ?bw = "gt0 bw0"
  let ?out = "fill_once label ?bw hole_min hole_max"
  have r1: "hole_filling label bw0 hole_min hole_max fill_2d = ([], Some ?out)"
    by (rule hole_filling_whole[OF w])
  have w2: "length (shape (as_int ?out)) = 2 \<or> (length (shape (as_int ?out)) = 3 \<and> \<not> fill_2d)"
    using w by (simp add: as_int_def fill_once_shape gt0_def)
  have r2: "hole_filling label (as_int ?out) hole_min hole_max fill_2d = ([], Some (fill_once label ?out hole_min hole_max))"
    using hole_filling_whole[OF w2] by (simp add: gt0_as_int)
  have L1: "is_labelling (invert ?bw) (label (invert ?bw))"
    using L False w by (auto simp: labels_ok_def label_calls_def gt0_def)
  have "labels_ok label ?out fill_2d \<longrightarrow> fill_once label ?out hole_min hole_max = ?out"
  proof
    assume "labels_ok label ?out fill_2d"
    then have "is_labelling (invert ?out) (label (invert ?out))"
      using False w by (auto simp: labels_ok_def label_calls_def gt0_def fill_once_shape)
    then show "fill_once label ?out hole_min hole_max = ?out"
      using fill_once_idem[of ?bw label hole_min hole_max, OF L1] by simp
  qed
  then show ?thesis using r1 r2 by simp
next
  case True
  let ?bw = "gt0 bw0"
  let ?out = "logical_or ?bw (fill_slices label ?bw hole_min hole_max)"
  have wfb: "wf_array ?bw" using wf by (simp add: wf_array_def gt0_def)
  have ne: "shape ?bw \<noteq> []" using True by (auto simp: gt0_def)
  have sho: "shape ?out = shape bw0" by (simp add: logical_or_def gt0_def)
  have r1: "hole_filling label bw0 hole_min hole_max fill_2d = ([], Some ?out)"
    using True by (simp add: hole_filling_sliced)
  have r2: "hole_filling label (as_int ?out) hole_min hole_max fill_2d =
      ([], Some (logical_or ?out (fill_slices label ?out hole_min hole_max)))"
  proof -
    have "length (shape (as_int ?out)) = 3" using True sho by (simp add: as_int_def)
    from hole_filling_sliced[OF this, of fill_2d label hole_min hole_max] True
    show ?thesis unfolding gt0_as_int by simp
  qed
  have L1: "\<forall>zz<hd (shape ?bw). is_labelling (invert (get_slice ?bw zz)) (label (invert (get_slice ?bw zz)))"
    using L True by (simp add: labels_ok_def label_calls_def gt0_def)
  have "labels_ok label ?out fill_2d \<longrightarrow> logical_or ?out (fill_slices label ?out hole_min hole_max) = ?out"
  proof
    assume "labels_ok label ?out fill_2d"
    then have L2: "\<forall>zz<hd (shape ?bw). is_labelling (invert (get_slice ?out zz)) (label (invert (get_slice ?out zz)))"
      using True sho by (simp add: labels_ok_def label_calls_def gt0_def)
    show "logical_or ?out (fill_slices label ?out hole_min hole_max) = ?out"
      by (rule fill_sliced_idem[OF wfb ne L1 refl L2])
  qed
  then show ?thesis using r1 r2 by simp
qed

lemma label_all_one_TTF:
  "is_labelling \<lparr>shape = [1, 3], data = [True, True, False]\<rparr>
     (label_all_one \<lparr>shape = [1, 3], data = [True, True, False]\<rparr>)"
proof -
  let ?a = "\<lparr>shape = [1, 3], data = [True, True, False]\<rparr>"
  have s01: "mask_step ?a 0 1" by (simp add: mask_step_def adjacent1_def)
  have s10: "mask_step ?a 1 0" by (simp add: mask_step_def adjacent1_def)
  have "\<forall>i<length (data ?a). \<forall>j<length (data ?a). data ?a ! i \<longrightarrow> data ?a ! j \<longrightarrow> connected ?a i j"
  proof (intro allI impI)
    fix i j assume "i < length (data ?a)" "j < length (data ?a)" "data ?a ! i" "data ?a ! j"
    then have "i = 0 \<or> i = 1" "j = 0 \<or> j = 1" by (auto simp: less_Suc_eq numeral_3_eq_3)
    then show "connected ?a i j" using connected_step[OF s01] connected_step[OF s10] connected_refl by auto
  qed
  then show ?thesis by (rule label_all_one_labelling)
qed

lemma label_all_one_single:
  assumes "\<forall>i<length (data a). \<forall>j<length (data a). data a ! i \<longrightarrow> data a ! j \<longrightarrow> i = j"
  shows "is_labelling a (label_all_one a)"
proof (rule label_all_one_labelling, intro allI impI)
  fix i j assume "i < length (data a)" "j < length (data a)" "data a ! i" "data a ! j"
  then have "i = j" using assms by blast
  then show "connected a i j" by (simp add: connected_refl)
qed

lemma label_all_one_TFF:
  "is_labelling \<lparr>shape = [1, 3], data = [True, False, False]\<rparr>
     (label_all_one \<lparr>shape = [1, 3], data = [True, False, False]\<rparr>)"
  by (rule label_all_one_single) (auto simp: less_Suc_eq numeral_3_eq_3)

lemma label_all_one_FFF:
  "is_labelling \<lparr>shape = [1, 3], data = [False, False, False]\<rparr>
     (label_all_one \<lparr>shape = [1, 3], data = [False, False, False]\<rparr>)"
  by (rule label_all_one_single) (auto simp: less_Suc_eq numeral_3_eq_3)

theorem hole_filling_idempotent_witness:
  "wf_array \<lparr>shape = [2, 1, 3], data = [0, 0, 1, 0, 1, 1 :: int]\<rparr> \<and>
   ndim \<lparr>shape = [2, 1, 3], data = [0, 0, 1, 0, 1, 1 :: int]\<rparr> = 3 \<and>
   labels_ok label_all_one (gt0 \<lparr>shape = [2, 1, 3], data = [0, 0, 1, 0, 1, 1]\<rparr>) True \<and>
   hole_filling label_all_one \<lparr>shape = [2, 1, 3], data = [0, 0, 1, 0, 1, 1]\<rparr> 2 2 True
     = ([], Some \<lparr>shape = [2, 1, 3], data = [True, True, True, False, True, True]\<rparr>) \<and>
   labels_ok label_all_one \<lparr>shape = [2, 1, 3], data = [True, True, True, False, True, True]\<rparr> True \<and>
   hole_filling label_all_one (as_int \<lparr>shape = [2, 1, 3], data = [True, True, True, False, True, True]\<rparr>) 2 2 True
     = ([], Some \<lparr>shape = [2, 1, 3], data = [True, True, True, False, True, True]\<rparr>)"
proof -
  let ?A = "\<lparr>shape = [2, 1, 3], data = [0, 0, 1, 0, 1, 1 :: int]\<rparr>"
  let ?O = "\<lparr>shape = [2, 1, 3], data = [True, True, True, False, True, True]\<rparr>"
  have up: "[0..<2] = [0, 1]" by (simp add: upt_rec)
  have h1: "wf_array ?A" by (simp add: wf_array_def)
  have h2: "ndim ?A = 3" by (simp add: ndim_def)
  have h3: "labels_ok label_all_one (gt0 ?A) True"
    using label_all_one_TTF label_all_one_TFF
    by (simp add: labels_ok_def label_calls_def gt0_def get_slice_def slice_len_def invert_def up)
  have h4: "labels_ok label_all_one ?O True"
    using label_all_one_FFF label_all_one_TFF
    by (simp add: labels_ok_def label_calls_def get_slice_def slice_len_def invert_def up)
  have run: "hole_filling label_all_one ?A 2 2 True = ([], Some ?O)"
    by (simp add: hole_filling_def fill_slices_def gt0_def invert_def Let_def logical_or_def astype_bool_def
        fill_labels_def label_all_one_def bincount_def mask_assign_def take_along_def
        get_slice_def set_slice_def slice_len_def zeros_like_def up)
  from hole_filling_idempotent[OF h1 disjI2[OF h2] h3, of 2 2]
  have "hole_filling label_all_one (as_int ?O) 2 2 True = ([], Some ?O)"
    unfolding run using h4 by simp
  then show ?thesis using h1 h2 h3 h4 run by simp
qed

section \<open>Properties of topology\_preserving\_thinning\<close>

lemma cond_slices_loop:
  assumes len: "length (data a) = d * slice_len a" and g: "\<forall>zz<d. length (g zz) = slice_len a" and k: "k \<le> d"
  shows "shape (foldl (\<lambda>fo zz. if c zz then set_slice fo zz (g zz) else fo) a [0..<k]) = shape a \<and>
         length (data (foldl (\<lambda>fo zz. if c zz then set_slice fo zz (g zz) else fo) a [0..<k])) = length (data a)"
  using k
proof (induction k)
  case 0
  then show ?case by simp
next
  case (Suc k)
  let ?f = "foldl (\<lambda>fo zz. if c zz then set_slice fo zz (g zz) else fo) a [0..<k]"
  from Suc have IH: "shape ?f = shape a" "length (data ?f) = length (data a)" by simp_all
  have sl: "slice_len ?f = slice_len a" using IH(1) by (simp add: slice_len_def)
  have kd: "k < d" using Suc.prems by simp
  have gk: "length (g k) = slice_len ?f" using g kd sl by simp
  have lenf: "length (data ?f) = d * slice_len ?f" using IH(2) len sl by simp
  show ?case using IH length_set_slice[OF lenf kd gk] by (simp add: shape_set_slice)
qed

lemma length_safe_zone:
  assumes wf: "wf_array bw" and ne: "shape bw \<noteq> []" and sk: "slices_keep_size medial_axis edt"
  shows "length (data (safe_zone_of medial_axis edt bw min_thickness)) = length (data bw)"
proof -
  let ?z = "zeros_like bw"
  let ?g = "\<lambda>zz. data (greater_than (edt (invert (medial_axis (get_slice bw zz)))) (min_thickness + 1 / 100000))"
  have sl: "slice_len ?z = slice_len bw" by (simp add: slice_len_def zeros_like_def)
  have len: "length (data ?z) = hd (shape bw) * slice_len ?z"
    using wf_slices[OF wf ne] sl by (simp add: zeros_like_def)
  have g: "\<forall>zz<hd (shape bw). length (?g zz) = slice_len ?z"
  proof (intro allI impI)
    fix zz assume "zz < hd (shape bw)"
    then have "length (data (get_slice bw zz)) = slice_len bw"
      using length_get_slice wf_slices[OF wf ne] by blast
    then show "length (?g zz) = slice_len ?z"
      using sk by (simp add: greater_than_def slices_keep_size_def sl)
  qed
  from cond_slices_loop[OF len g order_refl, of "\<lambda>zz. np_any (get_slice bw zz)"]
  show ?thesis unfolding safe_zone_of_def Let_def by (simp add: zeros_like_def)
qed

text \<open>
  Claim C4. The result of \<open>topology_preserving_thinning\<close> has the shape of the input, is
  False at exactly the voxels that lie in both \<open>safe_zone\<close> and \<open>rm_candidate\<close>, and has
  the value of the thresholded input everywhere else; so a voxel outside the safe zone
  keeps its value whatever the erosion does.
\<close>

theorem thinning_removes_exactly_safe_candidates:
  assumes wf: "wf_array bw0" and nd: "ndim bw0 = 3"
    and sk: "slices_keep_size medial_axis edt" and ek: "erosion_keeps_size erosion_ball"
  shows "shape (topology_preserving_thinning medial_axis edt erosion_ball bw0 min_thickness thin) = shape bw0 \<and>
         length (data (topology_preserving_thinning medial_axis edt erosion_ball bw0 min_thickness thin)) = length (data bw0) \<and>
         (\<forall>i<length (data bw0).
            data (topology_preserving_thinning medial_axis edt erosion_ball bw0 min_thickness thin) ! i =
              (if data (safe_zone_of medial_axis edt (gt0 bw0) min_thickness) ! i \<and>
                  data (rm_candidate_of erosion_ball (gt0 bw0) thin) ! i
               then False else 0 < data bw0 ! i))"
proof -
  let ?bw = "gt0 bw0"
  have wfb: "wf_array ?bw" using wf by (simp add: wf_array_def gt0_def)
  have ne: "shape ?bw \<noteq> []" using nd by (auto simp: ndim_def gt0_def)
  have ls: "length (data (safe_zone_of medial_axis edt ?bw min_thickness)) = length (data bw0)"
    using length_safe_zone[OF wfb ne sk] by (simp add: gt0_def)
  have lr: "length (data (rm_candidate_of erosion_ball ?bw thin)) = length (data bw0)"
    using ek by (simp add: rm_candidate_of_def logical_xor_def erosion_keeps_size_def gt0_def)
  show ?thesis using ls lr
    by (simp add: topology_preserving_thinning_def Let_def mask_assign_def logical_and_def gt0_def)
qed

theorem thinning_removes_exactly_safe_candidates_witness:
  "wf_array \<lparr>shape = [1, 1, 3], data = [1, 1, 0 :: int]\<rparr> \<and>
   ndim \<lparr>shape = [1, 1, 3], data = [1, 1, 0 :: int]\<rparr> = 3 \<and>
   slices_keep_size first_voxel_axis row_distance \<and> erosion_keeps_size erode_all \<and>
   data (safe_zone_of first_voxel_axis row_distance (gt0 \<lparr>shape = [1, 1, 3], data = [1, 1, 0]\<rparr>) (1/2))
      = [False, True, True] \<and>
   data (rm_candidate_of erode_all (gt0 \<lparr>shape = [1, 1, 3], data = [1, 1, 0]\<rparr>) 1) = [True, True, False] \<and>
   data (topology_preserving_thinning first_voxel_axis row_distance erode_all
           \<lparr>shape = [1, 1, 3], data = [1, 1, 0]\<rparr> (1/2) 1) ! 0 = True \<and>
   data (topology_preserving_thinning first_voxel_axis row_distance erode_all
           \<lparr>shape = [1, 1, 3], data = [1, 1, 0]\<rparr> (1/2) 1) ! 1 = False"
proof -
  let ?A = "\<lparr>shape = [1, 1, 3], data = [1, 1, 0 :: int]\<rparr>"
  have up: "[0..<3] = [0, 1, 2]" by (simp add: upt_rec)
  have h1: "wf_array ?A" by (simp add: wf_array_def)
  have h2: "ndim ?A = 3" by (simp add: ndim_def)
  have h3: "slices_keep_size first_voxel_axis row_distance"
    by (simp add: slices_keep_size_def first_voxel_axis_def row_distance_def invert_def)
  have h4: "erosion_keeps_size erode_all" by (simp add: erosion_keeps_size_def erode_all_def)
  have sz: "data (safe_zone_of first_voxel_axis row_distance (gt0 ?A) (1/2)) = [False, True, True]"
    by (simp add: safe_zone_of_def Let_def gt0_def np_any_def get_slice_def set_slice_def slice_len_def
        zeros_like_def first_voxel_axis_def row_distance_def invert_def greater_than_def up)
  have rm: "data (rm_candidate_of erode_all (gt0 ?A) 1) = [True, True, False]"
    by (simp add: rm_candidate_of_def logical_xor_def erode_all_def gt0_def)
  from thinning_removes_exactly_safe_candidates[OF h1 h2 h3 h4, of "1/2" 1]
  have "\<forall>i<3. data (topology_preserving_thinning first_voxel_axis row_distance erode_all ?A (1/2) 1) ! i =
              (if [False, True, True] ! i \<and> [True, True, False] ! i then False else 0 < [1, 1, 0 :: int] ! i)"
    unfolding sz rm by simp
  then have "data (topology_preserving_thinning first_voxel_axis row_distance erode_all ?A (1/2) 1) ! 0 = True"
    "data (topology_preserving_thinning first_voxel_axis row_distance erode_all ?A (1/2) 1) ! 1 = False"
    by (auto simp: numeral_3_eq_3)
  then show ?thesis using h1 h2 h3 h4 sz rm by simp
qed

section \<open>Properties of divide\_nonzero\<close>

lemma trunc_tiny: "trunc (1 / 10000000000) = 0"
proof -
  have "\<lfloor>(1::real) / 10000000000\<rfloor> = 0" by (rule floor_unique) simp_all
  then show ?thesis by (simp add: trunc_def)
qed

lemma substituted_denominator: "data (mask_assign d (eq_zero d) (trunc (1 / 10000000000))) = data d"
proof -
  have "map2 (\<lambda>x b. if b then 0 else x) xs (map (\<lambda>x. x = 0) xs) = xs" for xs :: "int list"
    by (induction xs) simp_all
  then show ?thesis by (simp add: mask_assign_def eq_zero_def trunc_tiny)
qed

text \<open>On integer arrays the substitution changes nothing: the call leaves the caller's
  arrays as they are and divides by the elements of \<open>array2\<close> themselves.\<close>

lemma divide_nonzero_int:
  assumes "array1 < length h" and "array2 < length h"
  shows "take (length h) (fst (divide_nonzero h array1 array2)) = h"
    and "data (snd (divide_nonzero h array1 array2)) = map2 true_divide (data (h ! array1)) (data (h ! array2))"
  using assms
  by (simp_all add: divide_nonzero_def np_copy_def Let_def nth_append np_divide_def substituted_denominator)

text \<open>
  Claim C10 on integer arrays. For \<open>array1 = [1]\<close> and \<open>array2 = [0]\<close> the caller's arrays
  are left as they are, but the division is by 0: the 1e-10 stored into the integer copy
  is truncated to 0, and the result is \<open>inf\<close>, not 1 / 1e-10.
\<close>

theorem divide_nonzero_int_zero_gives_inf:
  "take 2 (fst (divide_nonzero [\<lparr>shape = [1], data = [1]\<rparr>, \<lparr>shape = [1], data = [0]\<rparr>] 0 1))
     = [\<lparr>shape = [1], data = [1]\<rparr>, \<lparr>shape = [1], data = [0]\<rparr>] \<and>
   data (snd (divide_nonzero [\<lparr>shape = [1], data = [1]\<rparr>, \<lparr>shape = [1], data = [0]\<rparr>] 0 1))
     = [PosInf] \<and>
   data (snd (divide_nonzero [\<lparr>shape = [1], data = [1]\<rparr>, \<lparr>shape = [1], data = [0]\<rparr>] 0 1)) ! 0
     \<noteq> Finite (1 / (1 / 10 ^ 10))"
  by (simp add: divide_nonzero_def np_copy_def Let_def np_divide_def true_divide_def
      mask_assign_def eq_zero_def trunc_tiny numeral_2_eq_2)

section \<open>Properties of absolute\_eigenvaluesh\<close>

lemma length_sorted_row: "length (sorted_row row) = length row"
  by (simp add: sorted_row_def argsort_def)

lemma mset_sorted_row: "mset (sorted_row row) = mset row"
proof -
  have "mset (sorted_row row) = mset (map (\<lambda>i. row ! i) [0..<length row])"
    unfolding sorted_row_def argsort_def by simp
  then show ?thesis by (simp add: map_nth)
qed

lemma sorted_abs_sorted_row: "sorted (map abs (sorted_row row))"
proof -
  let ?ks = "map abs row"
  let ?p = "sort_key (\<lambda>i. ?ks ! i) [0..<length row]"
  have "map abs (sorted_row row) = map (\<lambda>i. ?ks ! i) ?p"
    by (simp add: sorted_row_def argsort_def)
  then show ?thesis by (simp only: sorted_sort_key)
qed

lemma chunk_concat:
  assumes "\<forall>xs \<in> set xss. length xs = n" and "r < length xss"
  shows "take n (drop (r * n) (concat xss)) = xss ! r"
  using assms
proof (induction xss arbitrary: r)
  case Nil
  then show ?case by simp
next
  case (Cons xs xss)
  then show ?case by (cases r) (simp_all add: add.commute)
qed

lemma length_concat_same:
  assumes "\<forall>xs \<in> set xss. length xs = n"
  shows "length (concat xss) = length xss * n"
  using assms by (induction xss) simp_all

lemma rows_facts:
  assumes n0: "last (shape a) \<noteq> 0"
  shows "\<forall>row \<in> set (rows a). length row = last (shape a)"
proof -
  let ?n = "last (shape a)"
  have "\<And>r. r < length (data a) div ?n \<Longrightarrow> r * ?n + ?n \<le> length (data a)"
  proof -
    fix r assume "r < length (data a) div ?n"
    then have "Suc r \<le> length (data a) div ?n" by simp
    then have "Suc r * ?n \<le> length (data a) div ?n * ?n" by (rule mult_le_mono1)
    also have "\<dots> \<le> length (data a)" by simp
    finally show "r * ?n + ?n \<le> length (data a)" by (simp add: add.commute)
  qed
  then have "\<And>r. r < length (data a) div ?n \<Longrightarrow> min (length (data a) - r * ?n) ?n = ?n"
    by (metis add_diff_cancel_left' diff_le_mono min.absorb2)
  then show ?thesis by (auto simp: rows_def Let_def)
qed

lemma rows_sortbyabs:
  assumes n0: "last (shape a) \<noteq> 0"
  shows "rows (sortbyabs a) = map sorted_row (rows a)"
proof -
  let ?n = "last (shape a)"
  let ?xss = "map sorted_row (rows a)"
  have same: "\<forall>xs \<in> set ?xss. length xs = ?n"
    using rows_facts[OF n0] by (auto simp: length_sorted_row)
  have d: "data (sortbyabs a) = concat ?xss"
    by (simp add: sortbyabs_def sorted_row_def[abs_def])
  have len: "length (data (sortbyabs a)) div ?n = length (rows a)"
    using length_concat_same[OF same] n0 d by simp
  have "rows (sortbyabs a) = map (\<lambda>r. take ?n (drop (r * ?n) (concat ?xss))) [0..<length (rows a)]"
    using len d by (simp add: rows_def[of "sortbyabs a"] Let_def) (simp add: sortbyabs_def)
  also have "\<dots> = map (\<lambda>r. ?xss ! r) [0..<length ?xss]"
    using chunk_concat[OF same] by simp
  also have "\<dots> = ?xss" by (rule map_nth)
  finally show ?thesis .
qed

lemma upt_2: "[0..<2] = [0, Suc 0]"
  by (simp add: upt_rec)

lemma two_lists:
  assumes "length xs = 2" and r: "\<forall>l. (l \<in> set xs) = (l = (3::real) \<or> l = -5)"
  shows "xs = [3, -5] \<or> xs = [-5, 3]"
proof -
  obtain x y where xs: "xs = [x, y]" using assms(1)
    by (auto simp: length_Suc_conv numeral_2_eq_2)
  have "x \<in> set xs" "y \<in> set xs" by (simp_all add: xs)
  then have x: "x = 3 \<or> x = -5" and y: "y = 3 \<or> y = -5"
    using spec[OF r, of x] spec[OF r, of y] by blast+
  have "(3::real) \<in> set xs" "(-5::real) \<in> set xs"
    using spec[OF r, of 3] spec[OF r, of "-5"] by blast+
  then have a: "x = 3 \<or> y = 3" and b: "x = -5 \<or> y = -5"
    unfolding xs by fastforce+
  have ne: "(3::real) \<noteq> -5" by simp
  from x y a b ne show ?thesis unfolding xs by blast
qed

lemma eigen_result:
  assumes ne: "shape (eigvalsh nd_array) \<noteq> []" and n0: "last (shape (eigvalsh nd_array)) \<noteq> 0"
  shows "absolute_eigenvaluesh eigvalsh nd_array =
     Inr (map (\<lambda>k. \<lparr>shape = butlast (shape (eigvalsh nd_array)),
                      data = map (\<lambda>row. sorted_row row ! k) (rows (eigvalsh nd_array))\<rparr>)
              [0..<last (shape (eigvalsh nd_array))])"
proof -
  have sh: "shape (sortbyabs (eigvalsh nd_array)) = shape (eigvalsh nd_array)"
    by (simp add: sortbyabs_def)
  show ?thesis using ne n0
    by (simp add: absolute_eigenvaluesh_def Let_def sh split_squeeze_def[abs_def] rows_sortbyabs[OF n0] comp_def)
qed

lemma ranks_of_row:
  assumes n0: "last (shape e) \<noteq> 0" and r: "r < length (rows e)"
  shows "map (\<lambda>k. map (\<lambda>row. sorted_row row ! k) (rows e) ! r) [0..<last (shape e)] = sorted_row (rows e ! r)"
proof -
  have "length (rows e ! r) = last (shape e)" using rows_facts[OF n0] r by simp
  then have "length (sorted_row (rows e ! r)) = last (shape e)" by (simp add: length_sorted_row)
  then have "map (\<lambda>k. sorted_row (rows e ! r) ! k) [0..<last (shape e)] = sorted_row (rows e ! r)"
    by (metis map_nth)
  then show ?thesis using r by simp
qed

lemma sorted_row_3_m5: "sorted_row [3, -5] = [3, -5]"
  by (simp add: sorted_row_def argsort_def upt_2)

lemma sorted_row_m5_3: "sorted_row [-5, 3] = [3, -5]"
  by (simp add: sorted_row_def argsort_def upt_2)

lemma two_eigenvalues:
  assumes "length xs = 2" and "\<forall>l. (l \<in> set xs) = (l = (3::real) \<or> l = -5)"
  shows "sorted_row xs = [3, -5]"
  using two_lists[OF assms] sorted_row_3_m5 sorted_row_m5_3 by blast

text \<open>
  Claim C9. \<open>absolute_eigenvaluesh\<close> returns one array per eigenvalue rank, each of the
  batch shape (the eigenvalue axis squeezed away); for every matrix, the values at ranks
  0, 1, ... are that matrix's eigenvalues, in ascending order of absolute value. For the
  matrix \<open>[[3, 0], [0, -5]]\<close> with \<open>eigvalsh\<close> returning its two eigenvalues in any order,
  the result is 3 followed by -5.
\<close>

theorem absolute_eigenvaluesh_sorted_by_abs:
  "(shape (eigvalsh nd_array) \<noteq> [] \<and> last (shape (eigvalsh nd_array)) \<noteq> 0 \<longrightarrow>
     (\<exists>out. absolute_eigenvaluesh eigvalsh nd_array = Inr out \<and>
        length out = last (shape (eigvalsh nd_array)) \<and>
        (\<forall>k<last (shape (eigvalsh nd_array)).
           shape (out ! k) = butlast (shape (eigvalsh nd_array)) \<and>
           length (data (out ! k)) = length (rows (eigvalsh nd_array))) \<and>
        (\<forall>r<length (rows (eigvalsh nd_array)).
           mset (map (\<lambda>k. data (out ! k) ! r) [0..<last (shape (eigvalsh nd_array))])
             = mset (rows (eigvalsh nd_array) ! r) \<and>
           sorted (map (\<lambda>k. \<bar>data (out ! k) ! r\<bar>) [0..<last (shape (eigvalsh nd_array))])))) \<and>
   (eigvalsh_ok2 eigvalsh \<lparr>shape = [2, 2], data = [3, 0, 0, -5]\<rparr> \<longrightarrow>
      absolute_eigenvaluesh eigvalsh \<lparr>shape = [2, 2], data = [3, 0, 0, -5]\<rparr>
        = Inr [\<lparr>shape = [], data = [3]\<rparr>, \<lparr>shape = [], data = [-5]\<rparr>])"
proof (intro conjI impI)
  let ?e = "eigvalsh nd_array"
  let ?n = "last (shape ?e)"
  assume "shape ?e \<noteq> [] \<and> ?n \<noteq> 0"
  then have ne: "shape ?e \<noteq> []" and n0: "?n \<noteq> 0" by simp_all
  let ?out = "map (\<lambda>k. \<lparr>shape = butlast (shape ?e), data = map (\<lambda>row. sorted_row row ! k) (rows ?e)\<rparr>) [0..<?n]"
  have res: "absolute_eigenvaluesh eigvalsh nd_array = Inr ?out" by (rule eigen_result[of eigvalsh nd_array, OF ne n0])
  have "\<forall>r<length (rows ?e).
           mset (map (\<lambda>k. data (?out ! k) ! r) [0..<?n]) = mset (rows ?e ! r) \<and>
           sorted (map (\<lambda>k. \<bar>data (?out ! k) ! r\<bar>) [0..<?n])"
  proof (intro allI impI)
    fix r assume r: "r < length (rows ?e)"
    have "map (\<lambda>k. data (?out ! k) ! r) [0..<?n] = map (\<lambda>k. map (\<lambda>row. sorted_row row ! k) (rows ?e) ! r) [0..<?n]"
      by (rule map_cong) simp_all
    then have eq: "map (\<lambda>k. data (?out ! k) ! r) [0..<?n] = sorted_row (rows ?e ! r)"
      using ranks_of_row[OF n0 r] by simp
    have "map (\<lambda>k. \<bar>data (?out ! k) ! r\<bar>) [0..<?n] = map abs (map (\<lambda>k. data (?out ! k) ! r) [0..<?n])"
      by (simp add: comp_def)
    then have "sorted (map (\<lambda>k. \<bar>data (?out ! k) ! r\<bar>) [0..<?n])"
      unfolding eq by (simp only: sorted_abs_sorted_row)
    then show "mset (map (\<lambda>k. data (?out ! k) ! r) [0..<?n]) = mset (rows ?e ! r) \<and>
           sorted (map (\<lambda>k. \<bar>data (?out ! k) ! r\<bar>) [0..<?n])"
      using eq by (simp only: mset_sorted_row)
  qed
  moreover have "length ?out = ?n" by simp
  moreover have "\<forall>k<?n. shape (?out ! k) = butlast (shape ?e) \<and> length (data (?out ! k)) = length (rows ?e)"
    by simp
  ultimately show "\<exists>out. absolute_eigenvaluesh eigvalsh nd_array = Inr out \<and>
        length out = ?n \<and>
        (\<forall>k<?n. shape (out ! k) = butlast (shape ?e) \<and> length (data (out ! k)) = length (rows ?e)) \<and>
        (\<forall>r<length (rows ?e).
           mset (map (\<lambda>k. data (out ! k) ! r) [0..<?n]) = mset (rows ?e ! r) \<and>
           sorted (map (\<lambda>k. \<bar>data (out ! k) ! r\<bar>) [0..<?n]))"
    using res by blast
next
  let ?m = "\<lparr>shape = [2, 2], data = [3, 0, 0, -5 :: real]\<rparr>"
  assume ok: "eigvalsh_ok2 eigvalsh ?m"
  then have sh: "shape (eigvalsh ?m) = [2]" and len: "length (data (eigvalsh ?m)) = 2"
    and roots: "\<forall>l. (l \<in> set (data (eigvalsh ?m))) = (char_poly2 ?m l = 0)"
    by (simp_all add: eigvalsh_ok2_def)
  have "\<And>l::real. (char_poly2 ?m l = 0) = (l = 3 \<or> l = -5)"
    by (auto simp: char_poly2_def)
  then have set: "\<forall>l. (l \<in> set (data (eigvalsh ?m))) = (l = 3 \<or> l = -5)" using roots by simp
  have row: "rows (eigvalsh ?m) = [data (eigvalsh ?m)]"
    using sh len by (simp add: rows_def)
  have "[0..<2] = [0, Suc 0]" by (rule upt_2)
  then show "absolute_eigenvaluesh eigvalsh ?m = Inr [\<lparr>shape = [], data = [3]\<rparr>, \<lparr>shape = [], data = [-5]\<rparr>]"
    using eigen_result[of eigvalsh ?m] sh row two_eigenvalues[OF len set] by simp
qed

theorem absolute_eigenvaluesh_sorted_by_abs_witness:
  "eigvalsh_diag2 \<lparr>shape = [2, 2], data = [3, 0, 0, -5]\<rparr> = \<lparr>shape = [2], data = [-5, 3]\<rparr> \<and>
   shape (eigvalsh_diag2 \<lparr>shape = [2, 2], data = [3, 0, 0, -5]\<rparr>) \<noteq> [] \<and>
   last (shape (eigvalsh_diag2 \<lparr>shape = [2, 2], data = [3, 0, 0, -5]\<rparr>)) \<noteq> 0 \<and>
   eigvalsh_ok2 eigvalsh_diag2 \<lparr>shape = [2, 2], data = [3, 0, 0, -5]\<rparr> \<and>
   (\<exists>out. absolute_eigenvaluesh eigvalsh_diag2 \<lparr>shape = [2, 2], data = [3, 0, 0, -5]\<rparr> = Inr out \<and>
      length out = 2) \<and>
   absolute_eigenvaluesh eigvalsh_diag2 \<lparr>shape = [2, 2], data = [3, 0, 0, -5]\<rparr>
     = Inr [\<lparr>shape = [], data = [3]\<rparr>, \<lparr>shape = [], data = [-5]\<rparr>]"
proof -
  let ?m = "\<lparr>shape = [2, 2], data = [3, 0, 0, -5 :: real]\<rparr>"
  have e: "eigvalsh_diag2 ?m = \<lparr>shape = [2], data = [-5, 3]\<rparr>" by (simp add: eigvalsh_diag2_def)
  have h1: "shape (eigvalsh_diag2 ?m) \<noteq> []" and h2: "last (shape (eigvalsh_diag2 ?m)) \<noteq> 0"
    by (simp_all add: e)
  have "\<And>l::real. (char_poly2 ?m l = 0) = (l = 3 \<or> l = -5)"
    by (auto simp: char_poly2_def)
  then have h3: "eigvalsh_ok2 eigvalsh_diag2 ?m"
    unfolding eigvalsh_ok2_def e by auto
  note t = absolute_eigenvaluesh_sorted_by_abs[of eigvalsh_diag2 ?m]
  from t h1 h2 have "\<exists>out. absolute_eigenvaluesh eigvalsh_diag2 ?m = Inr out \<and>
      length out = last (shape (eigvalsh_diag2 ?m))" by blast
  then have c1: "\<exists>out. absolute_eigenvaluesh eigvalsh_diag2 ?m = Inr out \<and> length out = 2"
    unfolding e by simp
  from t h3 have c2: "absolute_eigenvaluesh eigvalsh_diag2 ?m
     = Inr [\<lparr>shape = [], data = [3]\<rparr>, \<lparr>shape = [], data = [-5]\<rparr>]" by blast
  show ?thesis using e h1 h2 h3 c1 c2 by blast
qed

section \<open>Properties of get\_3dseed\_from\_mid\_frame\<close>













end
